theory Spec2Isabelle
  imports Complex_Main
begin

section \<open>Documents, paths and the store\<close>

text \<open>
  The module \<^verbatim>\<open>src/firebase/db.ts\<close> talks to a document store through the store's client
  library. A document is a finite map from field names to values. A document is named by
  a resource path, the list of its segments; a store maps resource paths to documents.
  A JavaScript \<^verbatim>\<open>number\<close> is a finite real here; the library stores an integral one as
  an integer value and any other as a double.
\<close>

type_synonym path = "string list"

datatype fieldval =
    Null
  | Num int
  | Dbl real
  | Str string
  | Flag bool
  | Strs "string list"
  | Time int

type_synonym document = "string \<rightharpoonup> fieldval"

type_synonym store = "path \<rightharpoonup> document"

definition jsNumber :: "real \<Rightarrow> fieldval" where
  "jsNumber x = (if x \<in> \<int> then Num \<lfloor>x\<rfloor> else Dbl x)"

text \<open>
  What is thrown is either a plain \<^verbatim>\<open>Error\<close> with its message or an error of the
  library's class, whose \<^verbatim>\<open>name\<close> is \<^verbatim>\<open>FirebaseError\<close> and which carries a
  \<^verbatim>\<open>code\<close>. A promise resolves, rejects, or is never settled.
\<close>

datatype error =
    Error string
  | FirebaseError string

datatype 'a promise =
    Resolved 'a
  | Rejected error
  | Pending

text \<open>
  The library's \<^verbatim>\<open>doc(firestore, path, ...pathSegments)\<close>. Each argument is split at
  the slashes and its empty pieces are dropped; the pieces of all arguments, in order,
  are the segments of the document's path. The call throws \<^verbatim>\<open>invalid-argument\<close> when
  the first argument is empty, when an argument contains two slashes in a row, or when
  the number of segments is odd.
\<close>

fun splitSlash :: "string \<Rightarrow> string list" where
  "splitSlash [] = [[]]"
| "splitSlash (x # xs) =
     (if x = CHR ''/'' then [] # splitSlash xs
      else (case splitSlash xs of [] \<Rightarrow> [[x]] | w # ws \<Rightarrow> (x # w) # ws))"

definition segments :: "string \<Rightarrow> string list" where
  "segments s = filter (\<lambda>w. w \<noteq> []) (splitSlash s)"

fun hasDoubleSlash :: "string \<Rightarrow> bool" where
  "hasDoubleSlash (x # y # xs) = ((x = CHR ''/'' \<and> y = CHR ''/'') \<or> hasDoubleSlash (y # xs))"
| "hasDoubleSlash [x] = False"
| "hasDoubleSlash [] = False"

definition resourcePath :: "string list \<Rightarrow> path" where
  "resourcePath components = concat (map segments components)"

definition doc :: "string list \<Rightarrow> error + path" where
  "doc components =
     (case components of
        [] \<Rightarrow> Inl (FirebaseError ''invalid-argument'')
      | first # more \<Rightarrow>
          if first = [] then Inl (FirebaseError ''invalid-argument'')
          else if list_ex hasDoubleSlash components then Inl (FirebaseError ''invalid-argument'')
          else if even (length (resourcePath components)) then Inr (resourcePath components)
          else Inl (FirebaseError ''invalid-argument''))"

section \<open>uploadListing\<close>

text \<open>The argument object of \<^verbatim>\<open>uploadListing\<close> (lines 64-82).\<close>

record listing_fields =
  sellerId :: string
  title :: string
  price :: real
  image_arg :: "string option"
  datePosted :: int
  description :: string
  categories :: "string list"
  isListingActive :: bool

text \<open>
  Everything the callback handed to \<^verbatim>\<open>runTransaction\<close> does, in program order: the
  generation of a document id, the call of the uploader, and the operations issued on
  the transaction handle. \<open>TxBegin\<close>, \<open>TxCommit\<close> and \<open>TxAbort\<close> are the library's own
  marks: the callback is invoked, its buffered writes are applied, or they are dropped.
\<close>

datatype event =
    TxBegin
  | NewDocId string
  | UploadImage string string
  | TxGet path
  | TxSet path document
  | TxUpdateIncrement path string int
  | TxCommit
  | TxAbort

text \<open>
  What one run of the callback meets in its surroundings. \<open>autoId\<close> is the id that
  \<^verbatim>\<open>doc(collectionRef)\<close> generates in this run, twenty letters and digits.
  \<open>uploadImageAsync\<close> is the uploader of \<^verbatim>\<open>./storage\<close>, a module of its own whose
  behaviour is a parameter here: given the image and the id it either rejects with an
  error or resolves to a URL or to \<^verbatim>\<open>null\<close>. \<open>getFails\<close> is the error with which a
  read of this run is rejected by the store, if any. \<open>changes\<close> is what other clients
  commit while this run is under way, between its reads and its commit: each path is
  set to a document or deleted. \<open>commitFails\<close> is the error with which the store
  rejects this run's commit for a reason other than a conflict, if any.
\<close>

record attempt =
  autoId :: string
  uploadImageAsync :: "string \<Rightarrow> string \<Rightarrow> error + string option"
  getFails :: "error option"
  changes :: "(path \<times> document option) list"
  commitFails :: "error option"

text \<open>Lines 86-90: \<^verbatim>\<open>if (image)\<close> is false for \<^verbatim>\<open>null\<close> and for the empty string.\<close>

fun uploadStep :: "string option \<Rightarrow> attempt \<Rightarrow> event list \<times> (error + string option)" where
  "uploadStep None e = ([], Inr None)"
| "uploadStep (Some img) e =
     (if img = [] then ([], Inr None)
      else ([UploadImage img (autoId e)], uploadImageAsync e img (autoId e)))"

text \<open>
  Lines 93-95: \<^verbatim>\<open>categories.map((category) => doc(firestore, "categories", category))\<close>
  throws at the first entry for which \<^verbatim>\<open>doc\<close> throws. \<open>refOf\<close> is the path that
  \<^verbatim>\<open>doc\<close> gives for an entry when it does not throw.
\<close>

fun categoryRefsOf :: "string list \<Rightarrow> error + path list" where
  "categoryRefsOf [] = Inr []"
| "categoryRefsOf (category # rest) =
     (case doc [''categories'', category] of
        Inl err \<Rightarrow> Inl err
      | Inr categoryRef \<Rightarrow>
          (case categoryRefsOf rest of
             Inl err \<Rightarrow> Inl err
           | Inr categoryRefs \<Rightarrow> Inr (categoryRef # categoryRefs)))"

definition refOf :: "string \<Rightarrow> path" where
  "refOf category = resourcePath [''categories'', category]"

text \<open>
  Lines 101-111. The spread \<^verbatim>\<open>...(uploadUrl && { imagePath: uploadUrl })\<close> adds the
  field only for a non-empty URL.
\<close>

definition listingData :: "string \<Rightarrow> listing_fields \<Rightarrow> string option \<Rightarrow> document" where
  "listingData docId inp uploadUrl =
     (let fields =
        [''listingId'' \<mapsto> Str docId,
         ''sellerId'' \<mapsto> Str (sellerId inp),
         ''title'' \<mapsto> Str (title inp),
         ''price'' \<mapsto> jsNumber (price inp),
         ''datePosted'' \<mapsto> Time (datePosted inp),
         ''description'' \<mapsto> Str (description inp),
         ''categories'' \<mapsto> Strs (categories inp),
         ''isListingActive'' \<mapsto> Flag (isListingActive inp)]
      in case uploadUrl of
           None \<Rightarrow> fields
         | Some url \<Rightarrow> if url = [] then fields else fields(''imagePath'' \<mapsto> Str url))"

text \<open>Lines 115-122, the body of the \<^verbatim>\<open>forEach\<close>.\<close>

fun categoryWrite :: "path \<Rightarrow> document option \<Rightarrow> event" where
  "categoryWrite categoryRef (Some d) = TxUpdateIncrement categoryRef ''countActiveListings'' 1"
| "categoryWrite categoryRef None = TxSet categoryRef [''countActiveListings'' \<mapsto> Num 1]"

text \<open>
  Lines 83-123, the callback. It returns the events of the run and the error with which
  it rejects, if any. The reads see the store as it is when the run starts; with no
  category there is no read that could fail.
\<close>

definition updateFunction :: "listing_fields \<Rightarrow> attempt \<Rightarrow> store \<Rightarrow> event list \<times> error option" where
  "updateFunction inp e st =
     (let documentRef = [''listings'', autoId e];
          (uploadEvents, uploaded) = uploadStep (image_arg inp) e
      in case uploaded of
           Inl err \<Rightarrow> (NewDocId (autoId e) # uploadEvents, Some err)
         | Inr uploadUrl \<Rightarrow>
             (case categoryRefsOf (categories inp) of
                Inl err \<Rightarrow> (NewDocId (autoId e) # uploadEvents, Some err)
              | Inr categoryRefs \<Rightarrow>
                  (case (if categoryRefs = [] then None else getFails e) of
                     Some err \<Rightarrow>
                       (NewDocId (autoId e) # uploadEvents @ map TxGet categoryRefs, Some err)
                   | None \<Rightarrow>
                       (let categoryDocs = map st categoryRefs;
                            data = listingData (autoId e) inp uploadUrl
                        in (NewDocId (autoId e) # uploadEvents
                              @ map TxGet categoryRefs
                              @ [TxSet documentRef data]
                              @ map (\<lambda>(categoryRef, categoryDoc). categoryWrite categoryRef categoryDoc)
                                  (zip categoryRefs categoryDocs),
                            None)))))"

section \<open>The library's transaction runner\<close>

text \<open>
  \<^verbatim>\<open>runTransaction\<close> belongs to the store's client library. What it does with a callback:
  it runs the callback; when the callback resolves it commits the buffered writes, in
  order and all at once, and the commit fails when a document the run has read was
  changed by another client in the meantime. When the callback rejects or the commit
  fails, and attempts remain, the library asks whether the error can be retried: a plain
  \<^verbatim>\<open>Error\<close> cannot; a \<^verbatim>\<open>FirebaseError\<close> can when its code is \<^verbatim>\<open>aborted\<close>,
  \<^verbatim>\<open>failed-precondition\<close> or \<^verbatim>\<open>already-exists\<close> or is not a permanent one; for a code
  that is none of the store's status codes the question itself fails and the promise is
  never settled. An error that can be retried makes the library run the callback again;
  any other, or any error when no attempt remains, is what the promise rejects with.
  The default is five attempts.
\<close>

fun applyWrite :: "event \<Rightarrow> store \<Rightarrow> store option" where
  "applyWrite (TxSet p d) s = Some (s(p \<mapsto> d))"
| "applyWrite (TxUpdateIncrement p f n) s =
     (case s p of
        None \<Rightarrow> None
      | Some d \<Rightarrow> Some (s(p \<mapsto> d(f \<mapsto> Num (case d f of Some (Num m) \<Rightarrow> m + n | _ \<Rightarrow> n)))))"
| "applyWrite _ s = Some s"

fun commit :: "event list \<Rightarrow> store \<Rightarrow> store option" where
  "commit [] s = Some s"
| "commit (w # ws) s = (case applyWrite w s of None \<Rightarrow> None | Some s' \<Rightarrow> commit ws s')"

fun readSet :: "event list \<Rightarrow> path list" where
  "readSet [] = []"
| "readSet (TxGet p # evs) = p # readSet evs"
| "readSet (_ # evs) = readSet evs"

definition conflict :: "event list \<Rightarrow> (path \<times> document option) list \<Rightarrow> bool" where
  "conflict evs chg = list_ex (\<lambda>p. p \<in> set (readSet evs)) (map fst chg)"

definition applyChanges :: "(path \<times> document option) list \<Rightarrow> store \<Rightarrow> store" where
  "applyChanges chg st = foldl (\<lambda>s (p, d). s(p := d)) st chg"

text \<open>\<open>None\<close>: the code is none of the store's status codes, or is \<^verbatim>\<open>ok\<close>.\<close>

definition isPermanentError :: "string \<Rightarrow> bool option" where
  "isPermanentError code =
     (if code \<in> set [''cancelled'', ''unknown'', ''deadline-exceeded'', ''resource-exhausted'',
                      ''internal'', ''unavailable'', ''unauthenticated'']
      then Some False
      else if code \<in> set [''invalid-argument'', ''not-found'', ''already-exists'',
                      ''permission-denied'', ''failed-precondition'', ''aborted'', ''out-of-range'',
                      ''unimplemented'', ''data-loss'']
      then Some True
      else None)"

fun isRetryableTransactionError :: "error \<Rightarrow> bool option" where
  "isRetryableTransactionError (Error msg) = Some False"
| "isRetryableTransactionError (FirebaseError code) =
     (if code = ''aborted'' \<or> code = ''failed-precondition'' \<or> code = ''already-exists''
      then Some True
      else (case isPermanentError code of None \<Rightarrow> None | Some permanent \<Rightarrow> Some (\<not> permanent)))"

text \<open>
  One run: the events, the store afterwards, and the error of the run if it failed. The
  other clients' changes of this run are in the store afterwards in every case.
\<close>

definition runOnce ::
  "(attempt \<Rightarrow> store \<Rightarrow> event list \<times> error option) \<Rightarrow> attempt \<Rightarrow> store \<Rightarrow> event list \<times> store \<times> error option" where
  "runOnce f e st =
     (let st' = applyChanges (changes e) st in
      case f e st of
        (evs, Some err) \<Rightarrow> (evs, st', Some err)
      | (evs, None) \<Rightarrow>
          (case commitFails e of
             Some err \<Rightarrow> (evs, st', Some err)
           | None \<Rightarrow>
               if conflict evs (changes e) then (evs, st', Some (FirebaseError ''failed-precondition''))
               else (case commit evs st' of
                       None \<Rightarrow> (evs, st', Some (FirebaseError ''not-found''))
                     | Some st'' \<Rightarrow> (evs, st'', None))))"

record run =
  result :: "unit promise"
  final :: store
  trace :: "event list"
  attempts :: nat

text \<open>
  \<open>remaining\<close> is the number of attempts that remain after the current one; \<open>env k\<close> is
  what the \<open>k\<close>-th run from now meets.
\<close>

fun runTransaction ::
  "(attempt \<Rightarrow> store \<Rightarrow> event list \<times> error option) \<Rightarrow> nat \<Rightarrow> (nat \<Rightarrow> attempt) \<Rightarrow> store \<Rightarrow> run" where
  "runTransaction f 0 env st =
     (case runOnce f (env 0) st of
        (evs, st', None) \<Rightarrow>
          \<lparr>result = Resolved (), final = st', trace = TxBegin # evs @ [TxCommit], attempts = 1\<rparr>
      | (evs, st', Some err) \<Rightarrow>
          \<lparr>result = Rejected err, final = st', trace = TxBegin # evs @ [TxAbort], attempts = 1\<rparr>)"
| "runTransaction f (Suc remaining) env st =
     (case runOnce f (env 0) st of
        (evs, st', None) \<Rightarrow>
          \<lparr>result = Resolved (), final = st', trace = TxBegin # evs @ [TxCommit], attempts = 1\<rparr>
      | (evs, st', Some err) \<Rightarrow>
          (case isRetryableTransactionError err of
             None \<Rightarrow>
               \<lparr>result = Pending, final = st', trace = TxBegin # evs, attempts = 1\<rparr>
           | Some False \<Rightarrow>
               \<lparr>result = Rejected err, final = st', trace = TxBegin # evs @ [TxAbort], attempts = 1\<rparr>
           | Some True \<Rightarrow>
               (let r = runTransaction f remaining (\<lambda>k. env (Suc k)) st' in
                r\<lparr>trace := TxBegin # evs @ [TxAbort] @ trace r, attempts := Suc (attempts r)\<rparr>)))"

definition maxAttempts :: nat where
  "maxAttempts = 5"

text \<open>
  Lines 64-124: \<^verbatim>\<open>uploadListing\<close> passes no options, awaits the transaction and returns
  nothing.
\<close>

definition uploadListing :: "listing_fields \<Rightarrow> (nat \<Rightarrow> attempt) \<Rightarrow> store \<Rightarrow> run" where
  "uploadListing inp env st = runTransaction (updateFunction inp) (maxAttempts - 1) env st"

text \<open>
  The store as the other clients alone leave it in the course of the first \<open>n\<close> runs:
  the state that a call's own writes are measured against.
\<close>

definition othersOnly :: "(nat \<Rightarrow> attempt) \<Rightarrow> nat \<Rightarrow> store \<Rightarrow> store" where
  "othersOnly env n st = foldl (\<lambda>s e. applyChanges (changes e) s) st (map env [0..<n])"

text \<open>The counter of a category, read as 0 where the document or the field is missing.\<close>

definition counterOf :: "document option \<Rightarrow> int" where
  "counterOf found =
     (case found of
        None \<Rightarrow> 0
      | Some d \<Rightarrow> (case d ''countActiveListings'' of Some (Num n) \<Rightarrow> n | _ \<Rightarrow> 0))"

definition countActive :: "store \<Rightarrow> string \<Rightarrow> int" where
  "countActive s category = counterOf (s (refOf category))"

fun isTxOp :: "event \<Rightarrow> bool" where
  "isTxOp (TxGet p) = True"
| "isTxOp (TxSet p d) = True"
| "isTxOp (TxUpdateIncrement p f n) = True"
| "isTxOp _ = False"

fun isTxWrite :: "event \<Rightarrow> bool" where
  "isTxWrite (TxSet p d) = True"
| "isTxWrite (TxUpdateIncrement p f n) = True"
| "isTxWrite _ = False"


text \<open>
  What can happen in a run: the uploader rejects; an entry of \<open>categories\<close> names no
  document; a read is rejected; another client changes a category document that the run
  has read. A run that meets none of the first three and whose commit the store does not
  reject for a reason of its own \<open>reachesCommit\<close>; it then \<open>commits\<close> or is \<open>conflicted\<close>.
\<close>

definition uploadFails :: "listing_fields \<Rightarrow> attempt \<Rightarrow> bool" where
  "uploadFails inp e = (case snd (uploadStep (image_arg inp) e) of Inl err \<Rightarrow> True | Inr url \<Rightarrow> False)"

definition keysValid :: "listing_fields \<Rightarrow> bool" where
  "keysValid inp = (case categoryRefsOf (categories inp) of Inl err \<Rightarrow> False | Inr categoryRefs \<Rightarrow> True)"

definition readsFail :: "listing_fields \<Rightarrow> attempt \<Rightarrow> bool" where
  "readsFail inp e = (categories inp \<noteq> [] \<and> getFails e \<noteq> None)"

definition touchesCategories :: "listing_fields \<Rightarrow> attempt \<Rightarrow> bool" where
  "touchesCategories inp e =
     list_ex (\<lambda>p. p \<in> set (map refOf (categories inp))) (map fst (changes e))"

definition reachesCommit :: "listing_fields \<Rightarrow> attempt \<Rightarrow> bool" where
  "reachesCommit inp e =
     (\<not> uploadFails inp e \<and> keysValid inp \<and> \<not> readsFail inp e \<and> commitFails e = None)"

definition commits :: "listing_fields \<Rightarrow> attempt \<Rightarrow> bool" where
  "commits inp e = (reachesCommit inp e \<and> \<not> touchesCategories inp e)"

definition conflicted :: "listing_fields \<Rightarrow> attempt \<Rightarrow> bool" where
  "conflicted inp e = (reachesCommit inp e \<and> touchesCategories inp e)"

section \<open>Reads, queries and subscriptions\<close>

text \<open>
  The point read \<^verbatim>\<open>getDoc(doc(firestore, ...))\<close> is a parameter here: given the
  arguments of \<^verbatim>\<open>doc\<close> it rejects (\<open>Inl\<close>), because the path is invalid or the store
  fails, or it resolves to a snapshot, which holds the document or nothing. A promise that
  rejects is \<open>Inl\<close>, one that resolves to \<^verbatim>\<open>null\<close> is \<open>Inr None\<close>. The console
  output is the first component.
\<close>

datatype console = Log string | ErrorLog string error

text \<open>Lines 23-32.\<close>

definition getDocument ::
  "(string list \<Rightarrow> error + document option) \<Rightarrow> string \<Rightarrow> console list \<times> (error + document option)" where
  "getDocument getDoc p =
     (case getDoc [p] of
        Inl err \<Rightarrow> ([], Inl err)
      | Inr (Some d) \<Rightarrow> ([], Inr (Some d))
      | Inr None \<Rightarrow> ([Log ''No such document!''], Inr None))"

text \<open>Lines 126-140: the \<^verbatim>\<open>catch\<close> logs the error and returns \<^verbatim>\<open>null\<close>.\<close>

definition getUserProfile ::
  "(string list \<Rightarrow> error + document option) \<Rightarrow> string \<Rightarrow> console list \<times> (error + document option)" where
  "getUserProfile getDoc userId =
     (case getDoc [''users'', userId] of
        Inl err \<Rightarrow> ([ErrorLog ''Error fetching user:'' err], Inr None)
      | Inr (Some d) \<Rightarrow> ([], Inr (Some d))
      | Inr None \<Rightarrow> ([Log ''No such user!''], Inr None))"

text \<open>
  The query \<^verbatim>\<open>where("sellerId", "!=", id)\<close> is evaluated by the store: it keeps the
  documents that have the field with a value other than \<^verbatim>\<open>null\<close> and other than the
  operand. A collection is the list of its documents with their ids.
\<close>

definition whereNotEqual ::
  "string \<Rightarrow> fieldval \<Rightarrow> (string \<times> document) list \<Rightarrow> (string \<times> document) list" where
  "whereNotEqual field v docs =
     filter (\<lambda>(ident, d). case d field of None \<Rightarrow> False | Some Null \<Rightarrow> False | Some x \<Rightarrow> x \<noteq> v) docs"

text \<open>Lines 154-160 and 174-180: the \<^verbatim>\<open>reduce\<close> into an object keyed by document id.\<close>

definition reduceById :: "(string \<times> document) list \<Rightarrow> (string \<rightharpoonup> document)" where
  "reduceById docs = foldl (\<lambda>acc (ident, d). acc(ident \<mapsto> d)) Map.empty docs"

text \<open>Lines 146-161.\<close>

definition getAllListings :: "string \<Rightarrow> (string \<times> document) list \<Rightarrow> (string \<rightharpoonup> document)" where
  "getAllListings ident docs = reduceById (whereNotEqual ''sellerId'' (Str ident) docs)"

text \<open>
  Lines 162-184. The listener is run on every state of the collection the store
  reports; the result lists the arguments of the calls of \<^verbatim>\<open>setListings\<close>, in order.
\<close>

definition createPostListingListener ::
  "string \<Rightarrow> (string \<times> document) list list \<Rightarrow> (string \<rightharpoonup> document) list" where
  "createPostListingListener userId snapshots =
     map (\<lambda>docs. reduceById (whereNotEqual ''sellerId'' (Str userId) docs)) snapshots"

section \<open>Concrete data for the examples\<close>

definition bikeListing :: listing_fields where
  "bikeListing =
     \<lparr>sellerId = ''u1'', title = ''Bike'', price = 150, image_arg = Some ''file:///bike.jpg'',
      datePosted = 1000, description = ''A road bike'', categories = [''BIKE'', ''ELEC''],
      isListingActive = True\<rparr>"

definition quiet :: "string \<Rightarrow> attempt" where
  "quiet ident =
     \<lparr>autoId = ident, uploadImageAsync = (\<lambda>img i. Inr (Some (''https://cdn/'' @ i))),
      getFails = None, changes = [], commitFails = None\<rparr>"

definition busy :: "string \<Rightarrow> attempt" where
  "busy ident =
     \<lparr>autoId = ident, uploadImageAsync = (\<lambda>img i. Inr (Some (''https://cdn/'' @ i))),
      getFails = None,
      changes = [([''categories'', ''ELEC''], Some [''countActiveListings'' \<mapsto> Num 1])],
      commitFails = None\<rparr>"

definition failing :: "error \<Rightarrow> string \<Rightarrow> attempt" where
  "failing err ident =
     \<lparr>autoId = ident, uploadImageAsync = (\<lambda>img i. Inl err),
      getFails = None, changes = [], commitFails = None\<rparr>"

text \<open>The runs listed first, then \<open>d\<close> for every later run.\<close>

definition schedule :: "attempt list \<Rightarrow> attempt \<Rightarrow> nat \<Rightarrow> attempt" where
  "schedule es d k = (if k < length es then es ! k else d)"

definition bikeStore :: store where
  "bikeStore = [[''categories'', ''BIKE''] \<mapsto> [''countActiveListings'' \<mapsto> Num 1]]"

definition twiceListing :: listing_fields where
  "twiceListing =
     \<lparr>sellerId = ''u1'', title = ''Bike'', price = 150, image_arg = None,
      datePosted = 1000, description = ''A road bike'', categories = [''BIKE'', ''BIKE''],
      isListingActive = True\<rparr>"

definition twiceNew :: listing_fields where
  "twiceNew =
     \<lparr>sellerId = ''u1'', title = ''Flute'', price = 80, image_arg = None,
      datePosted = 1000, description = ''A flute'', categories = [''MI'', ''MI''],
      isListingActive = True\<rparr>"


definition storeDown :: "string list \<Rightarrow> error + document option" where
  "storeDown p = Inl (FirebaseError ''unavailable'')"

definition storeEmpty :: "string list \<Rightarrow> error + document option" where
  "storeEmpty p = Inr None"

definition someListings :: "(string \<times> document) list" where
  "someListings =
     [(''L1'', [''sellerId'' \<mapsto> Str ''u1'', ''title'' \<mapsto> Str ''Bike'']),
      (''L2'', [''sellerId'' \<mapsto> Str ''u2'', ''title'' \<mapsto> Str ''Lamp'']),
      (''L3'', [''title'' \<mapsto> Str ''No seller''])]"

section \<open>Document references\<close>

lemma doc_categories:
  "doc [''categories'', c]
     = (if \<not> hasDoubleSlash c \<and> odd (length (segments c)) then Inr (refOf c)
        else Inl (FirebaseError ''invalid-argument''))"
  by (simp add: doc_def refOf_def resourcePath_def segments_def)

lemma categoryRefsOf_Inr:
  "categoryRefsOf cs = Inr ps \<Longrightarrow> ps = map refOf cs"
  by (induction cs arbitrary: ps) (auto simp: doc_categories split: sum.splits if_splits)

lemma refOf_categories: "refOf c = ''categories'' # segments c"
  by (simp add: refOf_def resourcePath_def segments_def)

lemma listing_not_category [simp]: "[''listings'', i] \<noteq> refOf c" "refOf c \<noteq> [''listings'', i]"
  by (simp_all add: refOf_categories)

lemma keysValid_refs: "keysValid inp \<Longrightarrow> categoryRefsOf (categories inp) = Inr (map refOf (categories inp))"
  by (cases "categoryRefsOf (categories inp)") (auto simp: keysValid_def dest: categoryRefsOf_Inr)

lemma categoryRefsOf_valid:
  "categoryRefsOf cs = Inr ps \<Longrightarrow> c \<in> set cs \<Longrightarrow> doc [''categories'', c] = Inr (refOf c)"
  by (induction cs arbitrary: ps) (auto simp: doc_categories split: sum.splits if_splits)

lemma keysValid_doc:
  "keysValid inp \<Longrightarrow> c \<in> set (categories inp) \<Longrightarrow> doc [''categories'', c] = Inr (refOf c)"
  by (cases "categoryRefsOf (categories inp)") (auto simp: keysValid_def dest: categoryRefsOf_valid)

text \<open>
  A key without a slash is its own single segment, so that for such keys entries name the
  same document exactly when they are equal.
\<close>

lemma splitSlash_plain: "CHR ''/'' \<notin> set c \<Longrightarrow> splitSlash c = [c]"
  by (induction c) auto

lemma refOf_plain: "CHR ''/'' \<notin> set c \<Longrightarrow> c \<noteq> [] \<Longrightarrow> refOf c = [''categories'', c]"
  by (simp add: refOf_categories segments_def splitSlash_plain)

lemma count_plain_keys:
  assumes "\<forall>k\<in>set (c # cs). CHR ''/'' \<notin> set k \<and> k \<noteq> []"
  shows "count_list (map refOf cs) (refOf c) = count_list cs c"
  using assms by (induction cs) (auto simp: refOf_plain)


section \<open>The writes of one run\<close>

lemma uploadStep_events:
  "fst (uploadStep img e) = [] \<or> (\<exists>i. fst (uploadStep img e) = [UploadImage i (autoId e)])"
  by (cases img) auto

lemma isTxOp_categoryWrite [simp]: "isTxOp (categoryWrite r d)"
  by (cases d) auto

lemma map2_same:
  "map (\<lambda>(r, d). g r d) (zip (map f xs) (map h xs)) = map (\<lambda>x. g (f x) (h x)) xs"
  by (induction xs) auto

lemma updateFunction_None:
  "snd (updateFunction inp e st) = None
     \<longleftrightarrow> \<not> uploadFails inp e \<and> keysValid inp \<and> \<not> readsFail inp e"
proof -
  obtain ue up where u: "uploadStep (image_arg inp) e = (ue, up)"
    by (cases "uploadStep (image_arg inp) e")
  show ?thesis
  proof (cases up)
    case (Inl err)
    with u show ?thesis by (simp add: updateFunction_def uploadFails_def)
  next
    case (Inr url)
    show ?thesis
    proof (cases "categoryRefsOf (categories inp)")
      case (Inl err)
      with u Inr show ?thesis by (simp add: updateFunction_def keysValid_def)
    next
      case r: (Inr refs)
      then have refs: "refs = map refOf (categories inp)" by (rule categoryRefsOf_Inr)
      with u Inr r show ?thesis
        by (cases "getFails e")
           (auto simp: updateFunction_def keysValid_def uploadFails_def readsFail_def Let_def)
    qed
  qed
qed

lemma updateFunction_events:
  assumes "updateFunction inp e st = (evs, None)"
  shows "\<exists>url. snd (uploadStep (image_arg inp) e) = Inr url \<and>
           evs = NewDocId (autoId e) # fst (uploadStep (image_arg inp) e)
             @ map (\<lambda>c. TxGet (refOf c)) (categories inp)
             @ [TxSet [''listings'', autoId e] (listingData (autoId e) inp url)]
             @ map (\<lambda>c. categoryWrite (refOf c) (st (refOf c))) (categories inp)"
proof -
  obtain ue up where u: "uploadStep (image_arg inp) e = (ue, up)"
    by (cases "uploadStep (image_arg inp) e")
  from assms u obtain url where up: "up = Inr url"
    by (cases up) (auto simp: updateFunction_def)
  from assms u up obtain refs where r: "categoryRefsOf (categories inp) = Inr refs"
    by (cases "categoryRefsOf (categories inp)") (auto simp: updateFunction_def)
  then have refs: "refs = map refOf (categories inp)" by (rule categoryRefsOf_Inr)
  from assms u up r have g: "(if refs = [] then None else getFails e) = None"
    by (cases "if refs = [] then None else getFails e") (auto simp: updateFunction_def Let_def)
  from assms u up r g refs show ?thesis
    by (simp add: updateFunction_def Let_def map2_same comp_def)
qed

lemma updateFunction_ops:
  assumes "updateFunction inp e st = (evs, None)"
  shows "filter isTxOp evs =
           map (\<lambda>c. TxGet (refOf c)) (categories inp)
           @ [TxSet [''listings'', autoId e]
                (listingData (autoId e) inp (case snd (uploadStep (image_arg inp) e) of Inr u \<Rightarrow> u | Inl x \<Rightarrow> None))]
           @ map (\<lambda>c. categoryWrite (refOf c) (st (refOf c))) (categories inp)"
proof -
  from updateFunction_events [OF assms] obtain url where
    url: "snd (uploadStep (image_arg inp) e) = Inr url" and
    evs: "evs = NewDocId (autoId e) # fst (uploadStep (image_arg inp) e)
             @ map (\<lambda>c. TxGet (refOf c)) (categories inp)
             @ [TxSet [''listings'', autoId e] (listingData (autoId e) inp url)]
             @ map (\<lambda>c. categoryWrite (refOf c) (st (refOf c))) (categories inp)"
    by blast
  from uploadStep_events [of "image_arg inp" e]
  have ue: "filter isTxOp (fst (uploadStep (image_arg inp) e)) = []"
    by auto
  have g: "filter isTxOp (map (\<lambda>c. TxGet (refOf c)) cs) = map (\<lambda>c. TxGet (refOf c)) cs" for cs
    by (induction cs) auto
  have w: "filter isTxOp (map (\<lambda>c. categoryWrite (refOf c) (st (refOf c))) cs)
             = map (\<lambda>c. categoryWrite (refOf c) (st (refOf c))) cs" for cs
    by (induction cs) auto
  show ?thesis
    by (simp only: evs filter_append filter.simps ue g w url isTxOp.simps sum.case if_True if_False append_Nil append_Cons)
qed

text \<open>
  C1. In a run of the callback that does not throw, the operations on the transaction
  handle are: first one read per entry of \<open>categories\<close>, in order; then the write of the
  listing; then one write per entry, in order. The write for entry \<open>i\<close> is the atomic
  increment of \<open>countActiveListings\<close> by 1 where the read of this run found the
  document, and the creation of the document with \<open>countActiveListings = 1\<close> where it
  found none. The document is the one that \<^verbatim>\<open>doc(firestore, "categories", category)\<close>
  names.
\<close>

theorem category_write_follows_read:
  assumes "updateFunction inp e st = (evs, None)"
    and "i < length (categories inp)"
  shows "take (length (categories inp)) (filter isTxOp evs)
           = map (\<lambda>c. TxGet (refOf c)) (categories inp)
         \<and> list_all isTxWrite (drop (length (categories inp)) (filter isTxOp evs))
         \<and> filter isTxOp evs ! (length (categories inp) + 1 + i)
           = (if st (refOf (categories inp ! i)) = None
              then TxSet (refOf (categories inp ! i)) [''countActiveListings'' \<mapsto> Num 1]
              else TxUpdateIncrement (refOf (categories inp ! i)) ''countActiveListings'' 1)
         \<and> doc [''categories'', categories inp ! i] = Inr (refOf (categories inp ! i))"
proof -
  let ?n = "length (categories inp)"
  from assms(1) have "snd (updateFunction inp e st) = None" by simp
  then have "keysValid inp" by (simp add: updateFunction_None)
  from keysValid_doc [OF this] assms(2)
  have d: "doc [''categories'', categories inp ! i] = Inr (refOf (categories inp ! i))"
    by simp
  let ?w = "\<lambda>c. categoryWrite (refOf c) (st (refOf c))"
  note ops = updateFunction_ops [OF assms(1)]
  have w: "isTxWrite (?w c)" for c
    by (cases "st (refOf c)") auto
  have a: "take ?n (filter isTxOp evs) = map (\<lambda>c. TxGet (refOf c)) (categories inp)"
    by (simp add: ops)
  have b: "list_all isTxWrite (drop ?n (filter isTxOp evs))"
    by (simp add: ops list_all_iff w)
  have "filter isTxOp evs ! (?n + 1 + i) = ?w (categories inp ! i)"
    using assms(2) by (simp add: ops nth_append)
  moreover have "?w c = (if st (refOf c) = None
        then TxSet (refOf c) [''countActiveListings'' \<mapsto> Num 1]
        else TxUpdateIncrement (refOf c) ''countActiveListings'' 1)" for c
    by (cases "st (refOf c)") auto
  ultimately show ?thesis using a b d by simp
qed

theorem category_write_follows_read_witness:
  "snd (updateFunction bikeListing (quiet ''L2'') bikeStore) = None
   \<and> filter isTxOp (fst (updateFunction bikeListing (quiet ''L2'') bikeStore)) ! 3
       = TxUpdateIncrement [''categories'', ''BIKE''] ''countActiveListings'' 1
   \<and> filter isTxOp (fst (updateFunction bikeListing (quiet ''L2'') bikeStore)) ! 4
       = TxSet [''categories'', ''ELEC''] [''countActiveListings'' \<mapsto> Num 1]"
proof -
  let ?r = "updateFunction bikeListing (quiet ''L2'') bikeStore"
  have s: "snd ?r = None"
    by (simp add: updateFunction_None uploadFails_def keysValid_def readsFail_def doc_categories
        segments_def bikeListing_def quiet_def)
  then have h: "?r = (fst ?r, None)"
    by (metis prod.collapse)
  have i0: "0 < length (categories bikeListing)" and i1: "1 < length (categories bikeListing)"
    by (simp_all add: bikeListing_def)
  from category_write_follows_read [OF h i0] category_write_follows_read [OF h i1] s
  show ?thesis
    by (simp add: bikeListing_def bikeStore_def refOf_categories segments_def eval_nat_numeral)
qed


section \<open>Commit and retry\<close>

lemma readSet_append: "readSet (xs @ ys) = readSet xs @ readSet ys"
  by (induction xs rule: readSet.induct) auto

lemma readSet_gets: "readSet (map (\<lambda>c. TxGet (f c)) cs) = map f cs"
  by (induction cs) auto

lemma readSet_writes: "readSet (map (\<lambda>c. categoryWrite (f c) (g c)) cs) = []"
proof (induction cs)
  case Nil
  show ?case by simp
next
  case (Cons c cs)
  then show ?case by (cases "g c") auto
qed

lemma readSet_upload: "readSet (fst (uploadStep img e)) = []"
  by (cases img) auto

lemma updateFunction_readSet:
  assumes "updateFunction inp e st = (evs, None)"
  shows "readSet evs = map refOf (categories inp)"
proof -
  from updateFunction_events [OF assms] obtain url where
    "evs = NewDocId (autoId e) # fst (uploadStep (image_arg inp) e)
             @ map (\<lambda>c. TxGet (refOf c)) (categories inp)
             @ [TxSet [''listings'', autoId e] (listingData (autoId e) inp url)]
             @ map (\<lambda>c. categoryWrite (refOf c) (st (refOf c))) (categories inp)"
    by blast
  then show ?thesis
    by (simp add: readSet_append readSet_gets readSet_writes readSet_upload)
qed

lemma conflict_iff:
  assumes "updateFunction inp e st = (evs, None)"
  shows "conflict evs (changes e) = touchesCategories inp e"
  by (simp add: conflict_def touchesCategories_def updateFunction_readSet [OF assms])

lemma commit_append:
  "commit (xs @ ys) s = (case commit xs s of None \<Rightarrow> None | Some s' \<Rightarrow> commit ys s')"
  by (induction xs arbitrary: s) (auto split: option.splits)

lemma commit_gets [simp]: "commit (map (\<lambda>c. TxGet (f c)) cs) s = Some s"
  by (induction cs) auto

lemma commit_upload [simp]: "commit (fst (uploadStep img e)) s = Some s"
  by (cases img) auto

lemma applyChanges_untouched:
  "p \<notin> fst ` set chg \<Longrightarrow> applyChanges chg st p = st p"
  unfolding applyChanges_def
  by (induction chg arbitrary: st) auto

text \<open>The per-category writes computed from the reads \<open>s0\<close>, committed on \<open>s\<close>.\<close>

lemma commit_Set: "commit (TxSet p d # ws) s = commit ws (s(p \<mapsto> d))"
  by simp

lemma commit_Increment:
  "s p = Some d \<Longrightarrow>
   commit (TxUpdateIncrement p f n # ws) s
     = commit ws (s(p \<mapsto> d(f \<mapsto> Num (case d f of Some (Num m) \<Rightarrow> m + n | _ \<Rightarrow> n))))"
  by simp

lemma commit_cw_ok:
  assumes "\<forall>p\<in>set ps. s0 p \<noteq> None \<longrightarrow> s p \<noteq> None"
  shows "\<exists>s'. commit (map (\<lambda>p. categoryWrite p (s0 p)) ps) s = Some s'"
  using assms
proof (induction ps arbitrary: s)
  case Nil
  show ?case by simp
next
  case (Cons p ps)
  let ?W = "\<lambda>p. categoryWrite p (s0 p)"
  show ?case
  proof (cases "s0 p")
    case None
    let ?s1 = "s(p \<mapsto> [''countActiveListings'' \<mapsto> Num 1])"
    from None have step: "commit (map ?W (p # ps)) s = commit (map ?W ps) ?s1"
      by (simp only: list.map categoryWrite.simps commit_Set)
    from Cons.prems have "\<forall>x\<in>set ps. s0 x \<noteq> None \<longrightarrow> ?s1 x \<noteq> None"
      by auto
    with Cons.IH [of ?s1] obtain s' where "commit (map ?W ps) ?s1 = Some s'"
      by blast
    with step show ?thesis by metis
  next
    case (Some d0)
    with Cons.prems obtain d where d: "s p = Some d"
      by auto
    let ?s1 = "s(p \<mapsto> d(''countActiveListings'' \<mapsto>
        Num (case d ''countActiveListings'' of Some (Num m) \<Rightarrow> m + 1 | _ \<Rightarrow> 1)))"
    from Some d have step: "commit (map ?W (p # ps)) s = commit (map ?W ps) ?s1"
      by (simp only: list.map categoryWrite.simps commit_Increment)
    from Cons.prems have "\<forall>x\<in>set ps. s0 x \<noteq> None \<longrightarrow> ?s1 x \<noteq> None"
      by auto
    with Cons.IH [of ?s1] obtain s' where "commit (map ?W ps) ?s1 = Some s'"
      by blast
    with step show ?thesis by metis
  qed
qed

lemma commit_cw_other:
  assumes "commit (map (\<lambda>p. categoryWrite p (s0 p)) ps) s = Some s'"
    and "q \<notin> set ps"
  shows "s' q = s q"
  using assms
proof (induction ps arbitrary: s)
  case Nil
  then show ?case by simp
next
  case (Cons p ps)
  let ?W = "\<lambda>p. categoryWrite p (s0 p)"
  from Cons.prems(2) have q: "q \<noteq> p" "q \<notin> set ps"
    by auto
  show ?case
  proof (cases "s0 p")
    case None
    let ?s1 = "s(p \<mapsto> [''countActiveListings'' \<mapsto> Num 1])"
    from None have "commit (map ?W (p # ps)) s = commit (map ?W ps) ?s1"
      by (simp only: list.map categoryWrite.simps commit_Set)
    with Cons.prems(1) have "commit (map ?W ps) ?s1 = Some s'" by simp
    from Cons.IH [OF this q(2)] q(1) show ?thesis by simp
  next
    case (Some d0)
    show ?thesis
    proof (cases "s p")
      case None
      with Some Cons.prems(1) show ?thesis by simp
    next
      case (Some d)
      let ?s1 = "s(p \<mapsto> d(''countActiveListings'' \<mapsto>
        Num (case d ''countActiveListings'' of Some (Num m) \<Rightarrow> m + 1 | _ \<Rightarrow> 1)))"
      from \<open>s0 p = Some d0\<close> Some
      have "commit (map ?W (p # ps)) s = commit (map ?W ps) ?s1"
        by (simp only: list.map categoryWrite.simps commit_Increment)
      with Cons.prems(1) have "commit (map ?W ps) ?s1 = Some s'" by simp
      from Cons.IH [OF this q(2)] q(1) show ?thesis by simp
    qed
  qed
qed

lemma commit_cw_absent:
  assumes "commit (map (\<lambda>p. categoryWrite p (s0 p)) ps) s = Some s'"
    and "q \<in> set ps" and "s0 q = None"
  shows "s' q = Some [''countActiveListings'' \<mapsto> Num 1]"
  using assms
proof (induction ps arbitrary: s)
  case Nil
  then show ?case by simp
next
  case (Cons x ps)
  let ?W = "\<lambda>p. categoryWrite p (s0 p)"
  show ?case
  proof (cases "q \<in> set ps")
    case True
    show ?thesis
    proof (cases "s0 x")
      case None
      let ?s1 = "s(x \<mapsto> [''countActiveListings'' \<mapsto> Num 1])"
      from None have "commit (map ?W (x # ps)) s = commit (map ?W ps) ?s1"
        by (simp only: list.map categoryWrite.simps commit_Set)
      with Cons.prems(1) have "commit (map ?W ps) ?s1 = Some s'" by simp
      from Cons.IH [OF this True Cons.prems(3)] show ?thesis .
    next
      case (Some d0)
      show ?thesis
      proof (cases "s x")
        case None
        with Some Cons.prems(1) show ?thesis by simp
      next
        case (Some d)
        let ?s1 = "s(x \<mapsto> d(''countActiveListings'' \<mapsto>
          Num (case d ''countActiveListings'' of Some (Num m) \<Rightarrow> m + 1 | _ \<Rightarrow> 1)))"
        from \<open>s0 x = Some d0\<close> Some
        have "commit (map ?W (x # ps)) s = commit (map ?W ps) ?s1"
          by (simp only: list.map categoryWrite.simps commit_Increment)
        with Cons.prems(1) have "commit (map ?W ps) ?s1 = Some s'" by simp
        from Cons.IH [OF this True Cons.prems(3)] show ?thesis .
      qed
    qed
  next
    case False
    with Cons.prems have x: "x = q" by simp
    let ?s1 = "s(q \<mapsto> [''countActiveListings'' \<mapsto> Num 1])"
    from x Cons.prems(3) have "commit (map ?W (x # ps)) s = commit (map ?W ps) ?s1"
      by (simp only: list.map categoryWrite.simps commit_Set)
    with Cons.prems(1) have "commit (map ?W ps) ?s1 = Some s'" by simp
    from commit_cw_other [OF this False] show ?thesis by (simp only: fun_upd_same)
  qed
qed

lemma commit_cw_present:
  assumes "commit (map (\<lambda>p. categoryWrite p (s0 p)) ps) s = Some s'"
    and "s0 q \<noteq> None" and "s q \<noteq> None"
  shows "s' q \<noteq> None \<and> counterOf (s' q) = counterOf (s q) + int (count_list ps q)"
  using assms
proof (induction ps arbitrary: s)
  case Nil
  then show ?case by simp
next
  case (Cons x ps)
  let ?W = "\<lambda>p. categoryWrite p (s0 p)"
  show ?case
  proof (cases "s0 x")
    case None
    with Cons.prems have ne: "x \<noteq> q" by auto
    let ?s1 = "s(x \<mapsto> [''countActiveListings'' \<mapsto> Num 1])"
    from None have "commit (map ?W (x # ps)) s = commit (map ?W ps) ?s1"
      by (simp only: list.map categoryWrite.simps commit_Set)
    with Cons.prems(1) have c: "commit (map ?W ps) ?s1 = Some s'"
      by simp
    from ne Cons.prems have "?s1 q \<noteq> None" by simp
    with Cons.IH [of ?s1] c Cons.prems(2)
    have "s' q \<noteq> None \<and> counterOf (s' q) = counterOf (?s1 q) + int (count_list ps q)"
      by blast
    moreover from ne have "?s1 q = s q" by simp
    ultimately show ?thesis using ne by simp
  next
    case (Some d0)
    show ?thesis
    proof (cases "s x")
      case None
      with Some Cons.prems show ?thesis by simp
    next
      case (Some d)
      let ?s1 = "s(x \<mapsto> d(''countActiveListings'' \<mapsto>
        Num (case d ''countActiveListings'' of Some (Num m) \<Rightarrow> m + 1 | _ \<Rightarrow> 1)))"
      from \<open>s0 x = Some d0\<close> Some
      have "commit (map ?W (x # ps)) s = commit (map ?W ps) ?s1"
        by (simp only: list.map categoryWrite.simps commit_Increment)
      with Cons.prems(1) have c: "commit (map ?W ps) ?s1 = Some s'"
        by simp
      from Cons.prems have "?s1 q \<noteq> None" by simp
      with Cons.IH [of ?s1] c Cons.prems(2)
      have ih: "s' q \<noteq> None" "counterOf (s' q) = counterOf (?s1 q) + int (count_list ps q)"
        by blast+
      have "counterOf (?s1 q) = counterOf (s q) + (if x = q then 1 else 0)"
        using Some by (auto simp: counterOf_def split: option.splits fieldval.splits)
      with ih show ?thesis by simp
    qed
  qed
qed

lemma commit_run:
  assumes "updateFunction inp e st = (evs, None)"
  shows "\<exists>url. snd (uploadStep (image_arg inp) e) = Inr url \<and>
           commit evs s1
             = commit (map (\<lambda>p. categoryWrite p (st p)) (map refOf (categories inp)))
                 (s1([''listings'', autoId e] \<mapsto> listingData (autoId e) inp url))"
proof -
  from updateFunction_events [OF assms] obtain url where
    url: "snd (uploadStep (image_arg inp) e) = Inr url" and
    evs: "evs = NewDocId (autoId e) # fst (uploadStep (image_arg inp) e)
             @ map (\<lambda>c. TxGet (refOf c)) (categories inp)
             @ [TxSet [''listings'', autoId e] (listingData (autoId e) inp url)]
             @ map (\<lambda>c. categoryWrite (refOf c) (st (refOf c))) (categories inp)"
    by blast
  have "commit evs s1
      = commit (map (\<lambda>p. categoryWrite p (st p)) (map refOf (categories inp)))
          (s1([''listings'', autoId e] \<mapsto> listingData (autoId e) inp url))"
    unfolding evs by (simp add: commit_append comp_def)
  with url show ?thesis by blast
qed

lemma untouched_categories:
  assumes "\<not> touchesCategories inp e" and "c \<in> set (categories inp)"
  shows "applyChanges (changes e) s (refOf c) = s (refOf c)"
proof -
  from assms have "refOf c \<notin> fst ` set (changes e)"
    by (force simp: touchesCategories_def list_ex_iff)
  then show ?thesis by (rule applyChanges_untouched)
qed

lemma othersOnly_0 [simp]: "othersOnly env 0 st = st"
  by (simp add: othersOnly_def)

lemma othersOnly_shift:
  "othersOnly env (Suc n) st = othersOnly (\<lambda>k. env (Suc k)) n (applyChanges (changes (env 0)) st)"
proof -
  have "[0..<Suc n] = 0 # map Suc [0..<n]"
    by (simp add: upt_conv_Cons map_Suc_upt del: upt_Suc)
  then have "map env [0..<Suc n] = env 0 # map (\<lambda>k. env (Suc k)) [0..<n]"
    by (simp add: comp_def del: upt_Suc)
  then show ?thesis
    by (simp only: othersOnly_def foldl.simps)
qed

lemma othersOnly_step:
  "othersOnly env (Suc n) st = applyChanges (changes (env n)) (othersOnly env n st)"
  by (simp add: othersOnly_def)


lemma commit_without_conflict:
  assumes f: "updateFunction inp e st = (evs, None)"
    and nt: "\<not> touchesCategories inp e"
  shows "\<exists>st''. commit evs (applyChanges (changes e) st) = Some st''"
proof -
  let ?st' = "applyChanges (changes e) st"
  from commit_run [OF f, of ?st'] obtain url where
    eq: "commit evs ?st'
           = commit (map (\<lambda>p. categoryWrite p (st p)) (map refOf (categories inp)))
               (?st'([''listings'', autoId e] \<mapsto> listingData (autoId e) inp url))"
    by blast
  let ?s = "?st'([''listings'', autoId e] \<mapsto> listingData (autoId e) inp url)"
  have pre: "\<forall>p\<in>set (map refOf (categories inp)). st p \<noteq> None \<longrightarrow> ?s p \<noteq> None"
    using untouched_categories [OF nt] by auto
  have "\<exists>s'. commit (map (\<lambda>p. categoryWrite p (st p)) (map refOf (categories inp))) ?s = Some s'"
    by (rule commit_cw_ok) (rule pre)
  then show ?thesis
    unfolding eq by blast
qed

lemma runOnce_commits:
  assumes "commits inp e"
  shows "\<exists>st''. runOnce (updateFunction inp) e st = (fst (updateFunction inp e st), st'', None)
           \<and> commit (fst (updateFunction inp e st)) (applyChanges (changes e) st) = Some st''"
proof -
  from assms have "snd (updateFunction inp e st) = None"
    by (simp add: updateFunction_None commits_def reachesCommit_def)
  then obtain evs where f: "updateFunction inp e st = (evs, None)"
    by (metis prod.collapse)
  from assms have nt: "\<not> touchesCategories inp e" and cf: "commitFails e = None"
    by (simp_all add: commits_def reachesCommit_def)
  from conflict_iff [OF f] nt have nc: "\<not> conflict evs (changes e)" by simp
  from commit_without_conflict [OF f nt] obtain st'' where
    "commit evs (applyChanges (changes e) st) = Some st''" by blast
  with f nc cf show ?thesis
    by (simp add: runOnce_def Let_def)
qed

lemma runOnce_conflicted:
  assumes "conflicted inp e"
  shows "runOnce (updateFunction inp) e st
           = (fst (updateFunction inp e st), applyChanges (changes e) st,
              Some (FirebaseError ''failed-precondition''))"
proof -
  from assms have "snd (updateFunction inp e st) = None"
    by (simp add: updateFunction_None conflicted_def reachesCommit_def)
  then obtain evs where f: "updateFunction inp e st = (evs, None)"
    by (metis prod.collapse)
  from assms have t: "touchesCategories inp e" and cf: "commitFails e = None"
    by (simp_all add: conflicted_def reachesCommit_def)
  from conflict_iff [OF f] t have "conflict evs (changes e)" by simp
  with f cf show ?thesis
    by (simp add: runOnce_def Let_def)
qed

lemma runOnce_failed:
  assumes "runOnce f e st = (evs, st', Some err)"
  shows "st' = applyChanges (changes e) st \<and> evs = fst (f e st)"
  using assms
  by (cases "f e st"; cases "snd (f e st)"; cases "commitFails e";
      cases "commit (fst (f e st)) (applyChanges (changes e) st)")
     (auto simp: runOnce_def Let_def split: if_splits)

lemma runOnce_done:
  assumes "runOnce (updateFunction inp) e st = (evs, st'', None)"
  shows "commits inp e \<and> evs = fst (updateFunction inp e st)
       \<and> commit evs (applyChanges (changes e) st) = Some st''"
proof -
  obtain evs0 thr where f: "updateFunction inp e st = (evs0, thr)"
    by (cases "updateFunction inp e st")
  from assms f have thr: "thr = None"
    by (cases thr) (auto simp: runOnce_def Let_def)
  with f have f': "updateFunction inp e st = (evs0, None)" by simp
  from assms f' have cf: "commitFails e = None"
    by (cases "commitFails e") (auto simp: runOnce_def Let_def)
  from assms f' cf have nc: "\<not> conflict evs0 (changes e)"
    by (auto simp: runOnce_def Let_def split: if_splits)
  from assms f' cf nc have c: "commit evs0 (applyChanges (changes e) st) = Some st''" and e: "evs = evs0"
    by (auto simp: runOnce_def Let_def split: option.splits)
  from f' have "snd (updateFunction inp e st) = None" by simp
  then have "\<not> uploadFails inp e \<and> keysValid inp \<and> \<not> readsFail inp e"
    by (simp add: updateFunction_None)
  with cf nc conflict_iff [OF f'] have "commits inp e"
    by (simp add: commits_def reachesCommit_def)
  with c e f' show ?thesis by simp
qed

lemma run_success:
  assumes "result (runTransaction (updateFunction inp) n env st) = Resolved ()"
  shows "0 < attempts (runTransaction (updateFunction inp) n env st)
       \<and> attempts (runTransaction (updateFunction inp) n env st) \<le> Suc n
       \<and> commits inp (env (attempts (runTransaction (updateFunction inp) n env st) - 1))
       \<and> commit (fst (updateFunction inp (env (attempts (runTransaction (updateFunction inp) n env st) - 1))
                   (othersOnly env (attempts (runTransaction (updateFunction inp) n env st) - 1) st)))
           (othersOnly env (attempts (runTransaction (updateFunction inp) n env st)) st)
         = Some (final (runTransaction (updateFunction inp) n env st))"
  using assms
proof (induction n arbitrary: env st)
  case 0
  obtain evs st' res where o: "runOnce (updateFunction inp) (env 0) st = (evs, st', res)"
    by (cases "runOnce (updateFunction inp) (env 0) st")
  show ?case
  proof (cases res)
    case None
    from runOnce_done [OF o [unfolded None]]
    have d: "commits inp (env 0)"
      "commit (fst (updateFunction inp (env 0) st)) (applyChanges (changes (env 0)) st) = Some st'"
      by blast+
    from o None have "runTransaction (updateFunction inp) 0 env st
        = \<lparr>result = Resolved (), final = st', trace = TxBegin # evs @ [TxCommit], attempts = 1\<rparr>"
      by simp
    with d show ?thesis
      by (simp add: othersOnly_step)
  next
    case (Some err)
    with o "0.prems" show ?thesis by simp
  qed
next
  case (Suc n)
  obtain evs st' res where o: "runOnce (updateFunction inp) (env 0) st = (evs, st', res)"
    by (cases "runOnce (updateFunction inp) (env 0) st")
  show ?case
  proof (cases res)
    case None
    from runOnce_done [OF o [unfolded None]]
    have d: "commits inp (env 0)"
      "commit (fst (updateFunction inp (env 0) st)) (applyChanges (changes (env 0)) st) = Some st'"
      by blast+
    from o None have "runTransaction (updateFunction inp) (Suc n) env st
        = \<lparr>result = Resolved (), final = st', trace = TxBegin # evs @ [TxCommit], attempts = 1\<rparr>"
      by simp
    with d show ?thesis
      by (simp add: othersOnly_step)
  next
    case (Some err)
    from runOnce_failed [OF o [unfolded Some]] have st': "st' = applyChanges (changes (env 0)) st"
      by simp
    let ?r' = "runTransaction (updateFunction inp) n (\<lambda>k. env (Suc k)) st'"
    from o Some Suc.prems have retry: "isRetryableTransactionError err = Some True"
      by (cases "isRetryableTransactionError err") (auto split: bool.splits)
    with o Some have r: "runTransaction (updateFunction inp) (Suc n) env st
        = ?r'\<lparr>trace := TxBegin # evs @ [TxAbort] @ trace ?r', attempts := Suc (attempts ?r')\<rparr>"
      by (simp add: Let_def)
    with Suc.prems have "result ?r' = Resolved ()" by simp
    from Suc.IH [OF this] obtain m where m: "attempts ?r' = Suc m"
      and ih: "Suc m \<le> Suc n" "commits inp (env (Suc m))"
        "commit (fst (updateFunction inp (env (Suc m)) (othersOnly (\<lambda>k. env (Suc k)) m st')))
           (othersOnly (\<lambda>k. env (Suc k)) (Suc m) st')
         = Some (final ?r')"
      by (cases "attempts ?r'") auto
    from ih m show ?thesis
      unfolding r st' by (simp add: othersOnly_shift [symmetric] del: othersOnly_step)
  qed
qed


text \<open>
  A call that succeeds: the writes of the last run, decided on the documents as the
  other clients left them, are applied to exactly that store.
\<close>

lemma success_reads_agree:
  assumes "r = runTransaction (updateFunction inp) n env st"
    and "result r = Resolved ()" and "c \<in> set (categories inp)"
  shows "othersOnly env (attempts r - 1) st (refOf c) = othersOnly env (attempts r) st (refOf c)"
proof -
  from run_success [of inp n env st] assms(1,2) obtain m where m: "attempts r = Suc m"
    and nt: "\<not> touchesCategories inp (env m)"
    by (cases "attempts r") (auto simp: commits_def)
  from untouched_categories [OF nt assms(3)] m show ?thesis
    by (simp add: othersOnly_step)
qed

lemma success_commit:
  assumes "r = runTransaction (updateFunction inp) n env st"
    and "result r = Resolved ()"
  shows "\<exists>url. snd (uploadStep (image_arg inp) (env (attempts r - 1))) = Inr url \<and>
     commit (map (\<lambda>p. categoryWrite p (othersOnly env (attempts r) st p)) (map refOf (categories inp)))
        ((othersOnly env (attempts r) st)
           ([''listings'', autoId (env (attempts r - 1))]
              \<mapsto> listingData (autoId (env (attempts r - 1))) inp url))
       = Some (final r)"
proof -
  let ?e = "env (attempts r - 1)"
  let ?prev = "othersOnly env (attempts r - 1) st"
  let ?base = "othersOnly env (attempts r) st"
  from run_success [of inp n env st] assms
  have c: "commits inp ?e"
    and cm: "commit (fst (updateFunction inp ?e ?prev)) ?base = Some (final r)"
    by simp_all
  from c have "snd (updateFunction inp ?e ?prev) = None"
    by (simp add: updateFunction_None commits_def reachesCommit_def)
  then have "updateFunction inp ?e ?prev = (fst (updateFunction inp ?e ?prev), None)"
    by (metis prod.collapse)
  from commit_run [OF this, of ?base] obtain url where
    url: "snd (uploadStep (image_arg inp) ?e) = Inr url" and
    eq: "commit (fst (updateFunction inp ?e ?prev)) ?base
           = commit (map (\<lambda>p. categoryWrite p (?prev p)) (map refOf (categories inp)))
               (?base([''listings'', autoId ?e] \<mapsto> listingData (autoId ?e) inp url))"
    by blast
  have "?prev (refOf c) = ?base (refOf c)" if "c \<in> set (categories inp)" for c
    using success_reads_agree [OF assms that] .
  then have eqmap: "map (\<lambda>p. categoryWrite p (?prev p)) (map refOf (categories inp))
           = map (\<lambda>p. categoryWrite p (?base p)) (map refOf (categories inp))"
    by (intro map_cong [OF refl]) auto
  from eq cm have "commit (map (\<lambda>p. categoryWrite p (?prev p)) (map refOf (categories inp)))
               (?base([''listings'', autoId ?e] \<mapsto> listingData (autoId ?e) inp url)) = Some (final r)"
    by (simp only:)
  then have "commit (map (\<lambda>p. categoryWrite p (?base p)) (map refOf (categories inp)))
               (?base([''listings'', autoId ?e] \<mapsto> listingData (autoId ?e) inp url)) = Some (final r)"
    by (simp only: eqmap)
  with url show ?thesis by blast
qed

lemma success_listing:
  assumes "r = runTransaction (updateFunction inp) n env st"
    and "result r = Resolved ()"
  shows "\<exists>url. snd (uploadStep (image_arg inp) (env (attempts r - 1))) = Inr url \<and>
     final r [''listings'', autoId (env (attempts r - 1))]
       = Some (listingData (autoId (env (attempts r - 1))) inp url)"
proof -
  from success_commit [OF assms] obtain url where
    url: "snd (uploadStep (image_arg inp) (env (attempts r - 1))) = Inr url" and
    cm: "commit (map (\<lambda>p. categoryWrite p (othersOnly env (attempts r) st p)) (map refOf (categories inp)))
        ((othersOnly env (attempts r) st)
           ([''listings'', autoId (env (attempts r - 1))]
              \<mapsto> listingData (autoId (env (attempts r - 1))) inp url))
       = Some (final r)"
    by blast
  have "[''listings'', autoId (env (attempts r - 1))] \<notin> set (map refOf (categories inp))"
    by auto
  from commit_cw_other [OF cm this] url show ?thesis
    by (intro exI [of _ url]) (simp only: fun_upd_same simp_thms)
qed

lemma success_absent:
  assumes "r = runTransaction (updateFunction inp) n env st"
    and "result r = Resolved ()"
    and "c \<in> set (categories inp)"
    and "othersOnly env (attempts r) st (refOf c) = None"
  shows "final r (refOf c) = Some [''countActiveListings'' \<mapsto> Num 1]"
proof -
  from success_commit [OF assms(1,2)] obtain url where
    cm: "commit (map (\<lambda>p. categoryWrite p (othersOnly env (attempts r) st p)) (map refOf (categories inp)))
        ((othersOnly env (attempts r) st)
           ([''listings'', autoId (env (attempts r - 1))]
              \<mapsto> listingData (autoId (env (attempts r - 1))) inp url))
       = Some (final r)"
    by blast
  from assms(3) have "refOf c \<in> set (map refOf (categories inp))" by simp
  from commit_cw_absent [OF cm this assms(4)] show ?thesis .
qed

lemma success_present:
  assumes "r = runTransaction (updateFunction inp) n env st"
    and "result r = Resolved ()"
    and "othersOnly env (attempts r) st (refOf c) \<noteq> None"
  shows "final r (refOf c) \<noteq> None \<and>
         countActive (final r) c
           = countActive (othersOnly env (attempts r) st) c
             + int (count_list (map refOf (categories inp)) (refOf c))"
proof -
  let ?base = "othersOnly env (attempts r) st"
  from success_commit [OF assms(1,2)] obtain url where
    cm: "commit (map (\<lambda>p. categoryWrite p (?base p)) (map refOf (categories inp)))
        (?base([''listings'', autoId (env (attempts r - 1))]
              \<mapsto> listingData (autoId (env (attempts r - 1))) inp url))
       = Some (final r)"
    by blast
  let ?s = "?base([''listings'', autoId (env (attempts r - 1))]
              \<mapsto> listingData (autoId (env (attempts r - 1))) inp url)"
  from assms(3) have "?s (refOf c) \<noteq> None" by simp
  from commit_cw_present [OF cm assms(3) this]
  have "final r (refOf c) \<noteq> None"
    and "counterOf (final r (refOf c))
           = counterOf (?s (refOf c)) + int (count_list (map refOf (categories inp)) (refOf c))"
    by blast+
  moreover have "?s (refOf c) = ?base (refOf c)"
    by simp
  ultimately show ?thesis by (simp add: countActive_def)
qed

lemma first_run_commits:
  assumes "commits inp (env 0)"
  shows "result (runTransaction (updateFunction inp) n env st) = Resolved ()
       \<and> attempts (runTransaction (updateFunction inp) n env st) = 1"
proof -
  from runOnce_commits [OF assms, of st] obtain st'' where
    "runOnce (updateFunction inp) (env 0) st = (fst (updateFunction inp (env 0) st), st'', None)"
    by blast
  then show ?thesis by (cases n) simp_all
qed

lemma conflicted_retries:
  assumes "conflicted inp (env 0)"
  shows "result (runTransaction (updateFunction inp) (Suc n) env st)
           = result (runTransaction (updateFunction inp) n (\<lambda>k. env (Suc k)) (applyChanges (changes (env 0)) st))
       \<and> final (runTransaction (updateFunction inp) (Suc n) env st)
           = final (runTransaction (updateFunction inp) n (\<lambda>k. env (Suc k)) (applyChanges (changes (env 0)) st))
       \<and> attempts (runTransaction (updateFunction inp) (Suc n) env st)
           = Suc (attempts (runTransaction (updateFunction inp) n (\<lambda>k. env (Suc k)) (applyChanges (changes (env 0)) st)))"
  by (simp add: runOnce_conflicted [OF assms] Let_def)

lemma second_run_commits:
  assumes "conflicted inp (env 0)" and "commits inp (env 1)"
  shows "result (uploadListing inp env st) = Resolved () \<and> attempts (uploadListing inp env st) = 2"
proof -
  have m: "maxAttempts - 1 = Suc 3" by (simp add: maxAttempts_def)
  from assms(2) have c: "commits inp (env (Suc 0))" by simp
  from first_run_commits [where env = "\<lambda>k. env (Suc k)" and inp = inp and n = 3
      and st = "applyChanges (changes (env 0)) st"] c
    conflicted_retries [where env = env and inp = inp and n = 3 and st = st] assms(1)
  show ?thesis
    unfolding uploadListing_def m by simp
qed

section \<open>Publication\<close>

lemmas run_defs =
  commits_def conflicted_def reachesCommit_def uploadFails_def keysValid_def readsFail_def
  touchesCategories_def doc_categories segments_def refOf_categories

lemma schedule_simps [simp]:
  "schedule [] d k = d" "schedule (e # es) d 0 = e" "schedule (e # es) d (Suc k) = schedule es d k"
  by (simp_all add: schedule_def)






text \<open>
  C5, as the code has it. When \<^verbatim>\<open>uploadListing\<close> succeeds, whatever number of runs were
  dropped and retried before, an aggregate named in \<open>categories\<close> that was absent, or that
  is named by one entry only, has its document in the final store with a counter exactly
  one more than in the store as the other clients alone left it at the commit (a missing
  document counting as 0). The writes of dropped runs leave no trace.
\<close>

theorem one_increment_per_publish:
  assumes "result (uploadListing inp env st) = Resolved ()"
    and "c \<in> set (categories inp)"
    and "othersOnly env (attempts (uploadListing inp env st)) st (refOf c) = None
         \<or> count_list (map refOf (categories inp)) (refOf c) = 1"
  shows "final (uploadListing inp env st) (refOf c) \<noteq> None
       \<and> countActive (final (uploadListing inp env st)) c
           = countActive (othersOnly env (attempts (uploadListing inp env st)) st) c + 1"
proof (cases "othersOnly env (attempts (uploadListing inp env st)) st (refOf c)")
  case None
  from success_absent [OF uploadListing_def assms(1,2) None] None show ?thesis
    by (simp add: countActive_def counterOf_def)
next
  case (Some d)
  then have ne: "othersOnly env (attempts (uploadListing inp env st)) st (refOf c) \<noteq> None"
    by simp
  with assms(3) have "count_list (map refOf (categories inp)) (refOf c) = 1" by simp
  with success_present [OF uploadListing_def assms(1) ne] show ?thesis
    by simp
qed

theorem one_increment_per_publish_witness:
  "result (uploadListing bikeListing (schedule [busy ''L1''] (quiet ''L2'')) bikeStore) = Resolved ()
   \<and> attempts (uploadListing bikeListing (schedule [busy ''L1''] (quiet ''L2'')) bikeStore) = 2
   \<and> ''ELEC'' \<in> set (categories bikeListing)
   \<and> count_list (map refOf (categories bikeListing)) (refOf ''ELEC'') = 1
   \<and> countActive (othersOnly (schedule [busy ''L1''] (quiet ''L2'')) 2 bikeStore) ''ELEC'' = 1
   \<and> countActive (final (uploadListing bikeListing (schedule [busy ''L1''] (quiet ''L2'')) bikeStore)) ''ELEC'' = 2
   \<and> result (uploadListing twiceNew (schedule [] (quiet ''L4'')) bikeStore) = Resolved ()
   \<and> ''MI'' \<in> set (categories twiceNew)
   \<and> othersOnly (schedule [] (quiet ''L4'')) 1 bikeStore (refOf ''MI'') = None
   \<and> countActive (final (uploadListing twiceNew (schedule [] (quiet ''L4'')) bikeStore)) ''MI'' = 1"
proof -
  let ?env = "schedule [busy ''L1''] (quiet ''L2'')"
  let ?r = "uploadListing bikeListing ?env bikeStore"
  have c1: "conflicted bikeListing (?env 0)"
    by (simp add: run_defs bikeListing_def busy_def)
  have c2: "commits bikeListing (?env 1)"
    by (simp add: run_defs bikeListing_def quiet_def)
  from second_run_commits [where env = ?env and inp = bikeListing and st = bikeStore] c1 c2
  have r: "result ?r = Resolved ()" and a: "attempts ?r = 2"
    by simp_all
  have m: "''ELEC'' \<in> set (categories bikeListing)"
    and n: "count_list (map refOf (categories bikeListing)) (refOf ''ELEC'') = 1"
    by (simp_all add: bikeListing_def run_defs)
  have b: "countActive (othersOnly ?env 2 bikeStore) ''ELEC'' = 1"
    by (simp add: othersOnly_def applyChanges_def countActive_def counterOf_def busy_def quiet_def
        bikeStore_def run_defs eval_nat_numeral)
  let ?env' = "schedule [] (quiet ''L4'')"
  let ?r' = "uploadListing twiceNew ?env' bikeStore"
  have c3: "commits twiceNew (?env' 0)"
    by (simp add: run_defs twiceNew_def quiet_def)
  from first_run_commits [where env = ?env' and inp = twiceNew and st = bikeStore
      and n = "maxAttempts - 1"] c3
  have r': "result ?r' = Resolved ()" and a': "attempts ?r' = 1"
    by (simp_all add: uploadListing_def)
  have m': "''MI'' \<in> set (categories twiceNew)"
    by (simp add: twiceNew_def)
  have b': "othersOnly ?env' 1 bikeStore (refOf ''MI'') = None"
    by (simp add: othersOnly_def applyChanges_def quiet_def bikeStore_def run_defs)
  from one_increment_per_publish [OF r m] one_increment_per_publish [OF r' m'] n a b r m a' b' r' m'
  show ?thesis
    by (simp add: countActive_def counterOf_def)
qed

theorem duplicate_key_counterexample:
  "result (uploadListing twiceListing (schedule [] (quiet ''L3'')) bikeStore) = Resolved ()
   \<and> countActive bikeStore ''BIKE'' = 1
   \<and> countActive (final (uploadListing twiceListing (schedule [] (quiet ''L3'')) bikeStore)) ''BIKE'' = 3"
proof -
  let ?env = "schedule [] (quiet ''L3'')"
  let ?r = "uploadListing twiceListing ?env bikeStore"
  have c: "commits twiceListing (?env 0)"
    by (simp add: run_defs twiceListing_def quiet_def)
  from first_run_commits [where env = ?env and inp = twiceListing and st = bikeStore
      and n = "maxAttempts - 1"] c
  have r: "result ?r = Resolved ()" and a: "attempts ?r = 1"
    by (simp_all add: uploadListing_def)
  have o: "othersOnly ?env 1 bikeStore = bikeStore"
    by (simp add: othersOnly_def applyChanges_def quiet_def)
  have b: "bikeStore (refOf ''BIKE'') \<noteq> None" "countActive bikeStore ''BIKE'' = 1"
    by (simp_all add: bikeStore_def countActive_def counterOf_def run_defs)
  have n: "count_list (map refOf (categories twiceListing)) (refOf ''BIKE'') = 2"
    by (simp add: twiceListing_def)
  from b(1) a o have "othersOnly ?env (attempts ?r) bikeStore (refOf ''BIKE'') \<noteq> None"
    by simp
  from success_present [OF uploadListing_def r this] a o b n r show ?thesis
    by simp
qed






lemma listingData_fields:
  "listingData i inp url ''listingId'' = Some (Str i)"
  "listingData i inp url ''sellerId'' = Some (Str (sellerId inp))"
  "listingData i inp url ''title'' = Some (Str (title inp))"
  "listingData i inp url ''price'' = Some (jsNumber (price inp))"
  "listingData i inp url ''categories'' = Some (Strs (categories inp))"
  by (simp_all add: listingData_def Let_def split: option.splits)

text \<open>
  C6, as the code has it. \<^verbatim>\<open>uploadListing\<close> is declared \<^verbatim>\<open>Promise<void>\<close>: on success
  it resolves to no value. The id generated in the committing run is not handed back; it
  is the key of the listing document in the store and that document's \<open>listingId\<close> field.
\<close>

theorem listing_id_only_in_store:
  assumes "result (uploadListing inp env st) = Resolved u"
  shows "u = ()
       \<and> (\<exists>d. final (uploadListing inp env st)
                [''listings'', autoId (env (attempts (uploadListing inp env st) - 1))] = Some d
              \<and> d ''listingId'' = Some (Str (autoId (env (attempts (uploadListing inp env st) - 1)))))"
proof -
  from assms have "result (uploadListing inp env st) = Resolved ()" by simp
  from success_listing [OF uploadListing_def this] show ?thesis
    by (auto simp: listingData_fields)
qed

theorem listing_id_only_in_store_witness:
  "result (uploadListing bikeListing (schedule [busy ''L1''] (quiet ''L2'')) bikeStore) = Resolved ()
   \<and> attempts (uploadListing bikeListing (schedule [busy ''L1''] (quiet ''L2'')) bikeStore) = 2
   \<and> (\<exists>d. final (uploadListing bikeListing (schedule [busy ''L1''] (quiet ''L2'')) bikeStore)
            [''listings'', ''L2''] = Some d
          \<and> d ''listingId'' = Some (Str ''L2''))"
proof -
  let ?env = "schedule [busy ''L1''] (quiet ''L2'')"
  let ?r = "uploadListing bikeListing ?env bikeStore"
  have c1: "conflicted bikeListing (?env 0)"
    by (simp add: run_defs bikeListing_def busy_def)
  have c2: "commits bikeListing (?env 1)"
    by (simp add: run_defs bikeListing_def quiet_def)
  from second_run_commits [where env = ?env and inp = bikeListing and st = bikeStore] c1 c2
  have r: "result ?r = Resolved ()" and a: "attempts ?r = 2"
    by simp_all
  have i: "autoId (?env (2 - 1)) = ''L2''"
    by (simp add: quiet_def)
  from listing_id_only_in_store [OF r] r a i show ?thesis
    by simp
qed

theorem returns_no_id_counterexample:
  "autoId (quiet ''L1'') \<noteq> autoId (quiet ''L2'')
   \<and> result (uploadListing bikeListing (schedule [] (quiet ''L1'')) bikeStore) = Resolved ()
   \<and> result (uploadListing bikeListing (schedule [] (quiet ''L2'')) bikeStore) = Resolved ()"
proof -
  have c: "commits bikeListing (schedule [] (quiet i) 0)" for i
    by (simp add: run_defs bikeListing_def quiet_def)
  from first_run_commits [where env = "schedule [] (quiet ''L1'')" and inp = bikeListing
      and st = bikeStore and n = "maxAttempts - 1"]
    first_run_commits [where env = "schedule [] (quiet ''L2'')" and inp = bikeListing
      and st = bikeStore and n = "maxAttempts - 1"] c
  show ?thesis by (simp add: quiet_def uploadListing_def)
qed





lemma failed_run_retries:
  assumes "runOnce f (env 0) st = (evs, st', Some err)"
    and "isRetryableTransactionError err = Some True"
  shows "result (runTransaction f (Suc n) env st) = result (runTransaction f n (\<lambda>k. env (Suc k)) st')
       \<and> final (runTransaction f (Suc n) env st) = final (runTransaction f n (\<lambda>k. env (Suc k)) st')
       \<and> attempts (runTransaction f (Suc n) env st)
           = Suc (attempts (runTransaction f n (\<lambda>k. env (Suc k)) st'))"
  using assms by (simp add: Let_def)

lemmas eval_defs =
  uploadListing_def maxAttempts_def runOnce_def updateFunction_def conflict_def applyChanges_def
  doc_def resourcePath_def segments_def isPermanentError_def

lemma plain_upload_error_rejects:
  assumes "image_arg inp = Some img" and "img \<noteq> []"
    and "uploadImageAsync (env 0) img (autoId (env 0)) = Inl (Error msg)"
  shows "result (uploadListing inp env st) = Rejected (Error msg)
       \<and> final (uploadListing inp env st) = applyChanges (changes (env 0)) st
       \<and> trace (uploadListing inp env st)
           = [TxBegin, NewDocId (autoId (env 0)), UploadImage img (autoId (env 0)), TxAbort]"
proof -
  from assms have "runOnce (updateFunction inp) (env 0) st
      = ([NewDocId (autoId (env 0)), UploadImage img (autoId (env 0))],
         applyChanges (changes (env 0)) st, Some (Error msg))"
    by (simp add: runOnce_def updateFunction_def)
  then show ?thesis
    by (cases "maxAttempts - 1") (simp_all add: uploadListing_def)
qed

text \<open>
  C3. The uploader is called inside the callback (line 89), so the transaction has been
  entered when it rejects, and the error goes through the library's handling of a failed
  run instead of going to the caller. With the image of \<open>bikeListing\<close>: an error of the
  library's class with a code that is none of the store's status codes leaves the promise
  of \<^verbatim>\<open>uploadListing\<close> unsettled; one with the code \<^verbatim>\<open>unavailable\<close> makes the library
  run the callback, and with it the upload, five times before it rejects; and when the
  upload succeeds in the second run, the call resolves and the listing is written.
\<close>

theorem upload_error_not_surfaced:
  "result (uploadListing bikeListing (schedule [] (failing (FirebaseError ''storage/unknown'') ''L1'')) bikeStore)
     = Pending
   \<and> trace (uploadListing bikeListing (schedule [] (failing (FirebaseError ''storage/unknown'') ''L1'')) bikeStore)
     = [TxBegin, NewDocId ''L1'', UploadImage ''file:///bike.jpg'' ''L1'']
   \<and> result (uploadListing bikeListing (schedule [] (failing (FirebaseError ''unavailable'') ''L1'')) bikeStore)
     = Rejected (FirebaseError ''unavailable'')
   \<and> filter (\<lambda>ev. ev = UploadImage ''file:///bike.jpg'' ''L1'')
        (trace (uploadListing bikeListing (schedule [] (failing (FirebaseError ''unavailable'') ''L1'')) bikeStore))
     = replicate 5 (UploadImage ''file:///bike.jpg'' ''L1'')
   \<and> result (uploadListing bikeListing
        (schedule [failing (FirebaseError ''unavailable'') ''L1''] (quiet ''L2'')) bikeStore)
     = Resolved ()
   \<and> final (uploadListing bikeListing
        (schedule [failing (FirebaseError ''unavailable'') ''L1''] (quiet ''L2'')) bikeStore)
        [''listings'', ''L2'']
     = Some (listingData ''L2'' bikeListing (Some ''https://cdn/L2''))"
proof -
  have a: "result (uploadListing bikeListing (schedule [] (failing (FirebaseError ''storage/unknown'') ''L1'')) bikeStore)
     = Pending
   \<and> trace (uploadListing bikeListing (schedule [] (failing (FirebaseError ''storage/unknown'') ''L1'')) bikeStore)
     = [TxBegin, NewDocId ''L1'', UploadImage ''file:///bike.jpg'' ''L1'']"
    by (simp add: eval_defs bikeListing_def failing_def eval_nat_numeral)
  have b: "result (uploadListing bikeListing (schedule [] (failing (FirebaseError ''unavailable'') ''L1'')) bikeStore)
     = Rejected (FirebaseError ''unavailable'')
   \<and> filter (\<lambda>ev. ev = UploadImage ''file:///bike.jpg'' ''L1'')
        (trace (uploadListing bikeListing (schedule [] (failing (FirebaseError ''unavailable'') ''L1'')) bikeStore))
     = replicate 5 (UploadImage ''file:///bike.jpg'' ''L1'')"
    by (simp add: eval_defs bikeListing_def failing_def eval_nat_numeral)
  let ?env = "schedule [failing (FirebaseError ''unavailable'') ''L1''] (quiet ''L2'')"
  have r0: "runOnce (updateFunction bikeListing) (?env 0) bikeStore
      = ([NewDocId ''L1'', UploadImage ''file:///bike.jpg'' ''L1''], bikeStore, Some (FirebaseError ''unavailable''))"
    by (simp add: eval_defs bikeListing_def failing_def)
  have c1: "commits bikeListing (?env 1)"
    by (simp add: run_defs bikeListing_def quiet_def)
  have m: "maxAttempts - 1 = Suc 3" by (simp add: maxAttempts_def)
  have re: "isRetryableTransactionError (FirebaseError ''unavailable'') = Some True"
    by (simp add: isPermanentError_def)
  from first_run_commits [where env = "\<lambda>k. ?env (Suc k)" and inp = bikeListing and st = bikeStore
      and n = 3] c1
  have "result (runTransaction (updateFunction bikeListing) 3 (\<lambda>k. ?env (Suc k)) bikeStore) = Resolved ()"
    and "attempts (runTransaction (updateFunction bikeListing) 3 (\<lambda>k. ?env (Suc k)) bikeStore) = 1"
    by simp_all
  with failed_run_retries [where env = ?env and f = "updateFunction bikeListing" and n = 3
      and st = bikeStore and st' = bikeStore and err = "FirebaseError ''unavailable''"] r0 re
  have r: "result (uploadListing bikeListing ?env bikeStore) = Resolved ()"
    and at: "attempts (uploadListing bikeListing ?env bikeStore) = 2"
    unfolding uploadListing_def m by simp_all
  have u: "snd (uploadStep (image_arg bikeListing) (quiet ''L2'')) = Inr (Some ''https://cdn/L2'')"
    by (simp add: bikeListing_def quiet_def)
  from success_listing [OF uploadListing_def r] at u
  have c: "final (uploadListing bikeListing ?env bikeStore) [''listings'', ''L2'']
     = Some (listingData ''L2'' bikeListing (Some ''https://cdn/L2''))"
    by (simp add: quiet_def)
  from a b r c show ?thesis by blast
qed

text \<open>
  C4. The id is generated and the image uploaded inside the callback (lines 84-90), so a
  retry does both again. Here another client creates the category \<^verbatim>\<open>ELEC\<close> between
  the reads and the commit of the first run: the first run's id \<^verbatim>\<open>L1\<close> and the image
  uploaded under it are abandoned, and the second run generates \<^verbatim>\<open>L2\<close> and uploads the
  image once more.
\<close>

theorem retry_allocates_and_uploads_again:
  "filter (\<lambda>ev. \<not> isTxOp ev)
     (trace (uploadListing bikeListing (schedule [busy ''L1''] (quiet ''L2'')) bikeStore))
     = [TxBegin, NewDocId ''L1'', UploadImage ''file:///bike.jpg'' ''L1'', TxAbort,
        TxBegin, NewDocId ''L2'', UploadImage ''file:///bike.jpg'' ''L2'', TxCommit]
   \<and> result (uploadListing bikeListing (schedule [busy ''L1''] (quiet ''L2'')) bikeStore) = Resolved ()"
  by (simp add: eval_defs bikeListing_def busy_def quiet_def bikeStore_def eval_nat_numeral)


section \<open>Reads\<close>

lemma foldl_upd_Some:
  "foldl (\<lambda>acc (ident, d). acc(ident \<mapsto> d)) acc docs k = Some d
   \<Longrightarrow> acc k = Some d \<or> (k, d) \<in> set docs"
proof (induction docs arbitrary: acc)
  case Nil
  then show ?case by simp
next
  case (Cons x docs)
  obtain i dx where x: "x = (i, dx)" by (cases x)
  from Cons.prems have "foldl (\<lambda>acc (ident, d). acc(ident \<mapsto> d)) (acc(i \<mapsto> dx)) docs k = Some d"
    unfolding x by (simp only: foldl.simps prod.case)
  from Cons.IH [of "acc(i \<mapsto> dx)", OF this] have "(acc(i \<mapsto> dx)) k = Some d \<or> (k, d) \<in> set docs" .
  then show ?case
    unfolding x by (cases "k = i") auto
qed

lemma foldl_upd_dom:
  "dom (foldl (\<lambda>acc (ident, d). acc(ident \<mapsto> d)) acc docs) = dom acc \<union> fst ` set docs"
  by (induction docs arbitrary: acc) (auto split: prod.splits)

lemma reduceById_Some: "reduceById docs k = Some d \<Longrightarrow> (k, d) \<in> set docs"
  using foldl_upd_Some [of Map.empty docs k d] by (simp add: reduceById_def)

lemma reduceById_dom: "dom (reduceById docs) = fst ` set docs"
  by (simp add: reduceById_def foldl_upd_dom)

lemma whereNotEqual_member:
  "(k, d) \<in> set (whereNotEqual field v docs) \<Longrightarrow> (k, d) \<in> set docs \<and> d field \<noteq> Some v"
  by (auto simp: whereNotEqual_def split: option.splits fieldval.splits)

lemma filtered_entry:
  assumes "reduceById (whereNotEqual ''sellerId'' (Str ident) docs) k = Some d"
  shows "d ''sellerId'' \<noteq> Some (Str ident) \<and> (k, d) \<in> set docs"
  using whereNotEqual_member [OF reduceById_Some [OF assms]] by simp

text \<open>
  C8. For every state of the collection and every user id, no entry of the mapping that
  \<^verbatim>\<open>getAllListings\<close> returns, and no entry of any mapping that the listener passes to
  \<^verbatim>\<open>setListings\<close>, has that id as its \<open>sellerId\<close>. Every entry is keyed by the id of the
  document it holds, and, document ids being distinct, the mapping has exactly one key
  per document of the query result.
\<close>

theorem owner_excluded:
  "(\<forall>k d. getAllListings ident docs k = Some d \<longrightarrow>
        d ''sellerId'' \<noteq> Some (Str ident) \<and> (k, d) \<in> set docs)
   \<and> (\<forall>m\<in>set (createPostListingListener ident snapshots). \<forall>k d. m k = Some d \<longrightarrow>
        d ''sellerId'' \<noteq> Some (Str ident))
   \<and> (distinct (map fst docs) \<longrightarrow>
        card (dom (getAllListings ident docs)) = length (whereNotEqual ''sellerId'' (Str ident) docs))"
proof -
  have a: "\<forall>k d. getAllListings ident docs k = Some d \<longrightarrow>
        d ''sellerId'' \<noteq> Some (Str ident) \<and> (k, d) \<in> set docs"
    using filtered_entry by (simp add: getAllListings_def)
  have b: "\<forall>m\<in>set (createPostListingListener ident snapshots). \<forall>k d. m k = Some d \<longrightarrow>
        d ''sellerId'' \<noteq> Some (Str ident)"
    using filtered_entry by (auto simp: createPostListingListener_def)
  have c: "card (dom (getAllListings ident docs)) = length (whereNotEqual ''sellerId'' (Str ident) docs)"
    if "distinct (map fst docs)"
  proof -
    let ?f = "whereNotEqual ''sellerId'' (Str ident) docs"
    from that have "distinct (map fst ?f)"
      unfolding whereNotEqual_def by (rule distinct_map_filter)
    then have "card (set (map fst ?f)) = length (map fst ?f)"
      by (rule distinct_card)
    then show ?thesis
      by (simp add: getAllListings_def reduceById_dom)
  qed
  from a b c show ?thesis by blast
qed

theorem owner_excluded_witness:
  "getAllListings ''u1'' someListings ''L2'' = Some [''sellerId'' \<mapsto> Str ''u2'', ''title'' \<mapsto> Str ''Lamp'']
   \<and> getAllListings ''u1'' someListings ''L1'' = None
   \<and> [''sellerId'' \<mapsto> Str ''u2'', ''title'' \<mapsto> Str ''Lamp''] ''sellerId'' \<noteq> Some (Str ''u1'')
   \<and> distinct (map fst someListings)
   \<and> card (dom (getAllListings ''u1'' someListings)) = 1
   \<and> length (createPostListingListener ''u1'' [someListings, []]) = 2"
proof -
  have v: "getAllListings ''u1'' someListings ''L2'' = Some [''sellerId'' \<mapsto> Str ''u2'', ''title'' \<mapsto> Str ''Lamp'']"
    "getAllListings ''u1'' someListings ''L1'' = None"
    by (simp_all add: getAllListings_def reduceById_def whereNotEqual_def someListings_def)
  have d: "distinct (map fst someListings)"
    by (simp add: someListings_def)
  have l: "length (whereNotEqual ''sellerId'' (Str ''u1'') someListings) = 1"
    by (simp add: whereNotEqual_def someListings_def)
  have n: "length (createPostListingListener ''u1'' [someListings, []]) = 2"
    by (simp add: createPostListingListener_def)
  from owner_excluded [of "''u1''" someListings "[someListings, []]"] v d l n
  show ?thesis by simp
qed

text \<open>
  C9, as the code has it. \<^verbatim>\<open>getDocument\<close> hands on what the point read gives: a missing
  document resolves to \<^verbatim>\<open>null\<close> and a failure of the store rejects, so the two can be
  told apart. \<^verbatim>\<open>getUserProfile\<close> resolves to \<^verbatim>\<open>null\<close> for a missing user and, through
  its \<^verbatim>\<open>catch\<close>, also for a failure of the store, which it only logs.
\<close>

theorem point_lookups:
  "snd (getDocument getDoc p) = getDoc [p]
   \<and> snd (getUserProfile getDoc userId)
       = (case getDoc [''users'', userId] of Inl err \<Rightarrow> Inr None | Inr found \<Rightarrow> Inr found)
   \<and> fst (getUserProfile getDoc userId)
       = (case getDoc [''users'', userId] of
            Inl err \<Rightarrow> [ErrorLog ''Error fetching user:'' err]
          | Inr None \<Rightarrow> [Log ''No such user!'']
          | Inr (Some d) \<Rightarrow> [])"
  by (auto simp: getDocument_def getUserProfile_def split: sum.splits option.splits)

theorem user_failure_looks_absent_counterexample:
  "storeDown [''users'', ''u1''] = Inl (FirebaseError ''unavailable'')
   \<and> storeEmpty [''users'', ''u1''] = Inr None
   \<and> snd (getUserProfile storeDown ''u1'') = Inr None
   \<and> snd (getUserProfile storeEmpty ''u1'') = Inr None"
  by (simp add: getUserProfile_def storeDown_def storeEmpty_def)

end
